theory Spec2Isabelle
  imports Main "HOL-Library.Product_Lexorder" "HOL-Library.Multiset"
begin

section \<open>Text primitives used by the filter pipeline\<close>

text \<open>
  The module is Python 2 (it imports \<open>rfc822\<close>). A tweet text is a sequence of
  characters; the model uses HOL's \<open>string\<close>, whose characters are the code points
  below 256. The regular expressions are compiled without the UNICODE and LOCALE
  flags, so \<open>\W\<close> is the complement of \<open>[a-zA-Z0-9_]\<close> and IGNORECASE folds
  the ASCII letters only.
\<close>

definition is_word_char :: "char \<Rightarrow> bool" where
  "is_word_char c =
     (let n = (of_char c :: nat)
      in (48 \<le> n \<and> n \<le> 57) \<or> (65 \<le> n \<and> n \<le> 90) \<or> n = 95 \<or> (97 \<le> n \<and> n \<le> 122))"

definition ascii_lower :: "char \<Rightarrow> char" where
  "ascii_lower c =
     (let n = (of_char c :: nat) in if 65 \<le> n \<and> n \<le> 90 then char_of (n + 32) else c)"

text \<open>
  \<open>unicode.lower()\<close> maps each character to its lowercase form and keeps the
  length; below 256 the uppercase characters are A-Z and the Latin-1 capitals
  192-222 other than the multiplication sign 215.
\<close>

definition lower_char :: "char \<Rightarrow> char" where
  "lower_char c =
     (let n = (of_char c :: nat)
      in if (65 \<le> n \<and> n \<le> 90) \<or> (192 \<le> n \<and> n \<le> 222 \<and> n \<noteq> 215)
         then char_of (n + 32) else c)"

definition lower :: "string \<Rightarrow> string" where
  "lower s = map lower_char s"

definition startswith :: "string \<Rightarrow> string \<Rightarrow> bool" where
  "startswith s p = (take (length p) s = p)"

text \<open>\<open>sub in s\<close>, equivalently \<open>s.find(sub) > -1\<close>.\<close>

fun contains :: "string \<Rightarrow> string \<Rightarrow> bool" where
  "contains [] sub = (sub = [])"
| "contains (c # cs) sub = (startswith (c # cs) sub \<or> contains cs sub)"

text \<open>
  \<open>s.replace(old, new)\<close>: the non-overlapping occurrences of \<open>old\<close> are replaced
  from left to right; an empty \<open>old\<close> matches before every character and at the end.
\<close>

function replace :: "string \<Rightarrow> string \<Rightarrow> string \<Rightarrow> string" where
  "replace old new [] = (if old = [] then new else [])"
| "replace old new (c # cs) =
     (if old = [] then new @ c # replace old new cs
      else if startswith (c # cs) old
           then new @ replace old new (drop (length old) (c # cs))
           else c # replace old new cs)"
  by pat_completeness auto
termination
  by (relation "measure (\<lambda>(old, new, s). length s)") auto

text \<open>\<open>MENTION_REGEX = re.compile('(^|\W)@')\<close>, used through \<open>search\<close>.\<close>

fun mention_after_nonword :: "string \<Rightarrow> bool" where
  "mention_after_nonword (a # b # cs) =
     ((\<not> is_word_char a \<and> b = CHR ''@'') \<or> mention_after_nonword (b # cs))"
| "mention_after_nonword _ = False"

definition MENTION_REGEX :: "string \<Rightarrow> bool" where
  "MENTION_REGEX s = (startswith s ''@'' \<or> mention_after_nonword s)"

text \<open>\<open>RT_REGEX = re.compile('^rt\W', re.IGNORECASE)\<close>, used through \<open>search\<close>;
  without MULTILINE the anchor matches at the start of the string only.\<close>

definition RT_REGEX :: "string \<Rightarrow> bool" where
  "RT_REGEX s =
     (case s of
        a # b # c # _ \<Rightarrow> ascii_lower a = CHR ''r'' \<and> ascii_lower b = CHR ''t'' \<and> \<not> is_word_char c
      | _ \<Rightarrow> False)"

text \<open>\<open>LINK_REGEX = re.compile('https?\:', re.IGNORECASE)\<close>, used through \<open>search\<close>.\<close>

definition link_here :: "string \<Rightarrow> bool" where
  "link_here s =
     (let l = map ascii_lower s in startswith l ''http:'' \<or> startswith l ''https:'')"

fun LINK_REGEX :: "string \<Rightarrow> bool" where
  "LINK_REGEX [] = False"
| "LINK_REGEX (c # cs) = (link_here (c # cs) \<or> LINK_REGEX cs)"

section \<open>The filter pipeline\<close>

record allowed_user =
  user_id :: int
  username :: string

definition ALLOWED_USERS :: "allowed_user list" where
  "ALLOWED_USERS =
     [\<lparr>user_id = 2142731, username = ''Firefox''\<rparr>,
      \<lparr>user_id = 150793437, username = ''FirefoxBrasil''\<rparr>]"

text \<open>
  A search result as the jobs read it: \<open>item['id']\<close>, \<open>item['text']\<close>,
  \<open>item.get('to_user_id')\<close> (\<open>None\<close> when the key is absent),
  \<open>item['user']['screen_name']\<close>, \<open>item['created_at']\<close> and
  \<open>item['metadata']\<close> (\<open>None\<close> when the key is absent) with its optional
  \<open>iso_language_code\<close>.
\<close>

record item =
  item_id :: int
  item_text :: string
  to_user_id :: "int option"
  screen_name :: string
  created_at :: string
  metadata :: "string option option"

text \<open>The rejection counters \<open>customercare.tweet.rejected.*\<close>, one per reason.\<close>

datatype reason = reply_or_mention | retweet | link | user

text \<open>\<open>to_user_id and to_user_id not in [u['id'] for u in ALLOWED_USERS]\<close>:
  \<open>None\<close> and \<open>0\<close> are falsy.\<close>

definition reply_to_other :: "item \<Rightarrow> bool" where
  "reply_to_other it =
     (case to_user_id it of
        None \<Rightarrow> False
      | Some u \<Rightarrow> u \<noteq> 0 \<and> u \<notin> set (map user_id ALLOWED_USERS))"

text \<open>The loop that removes \<open>'@%s' % username\<close> for each lowercased allow-listed
  handle, in list order.\<close>

definition filtered_text :: "string \<Rightarrow> string" where
  "filtered_text t =
     fold (\<lambda>name acc. replace (CHR ''@'' # name) [] acc) (map (lower \<circ> username) ALLOWED_USERS) t"

text \<open>The four counters of a contributor: the keys \<open>'all'\<close>, \<open>'1m'\<close>, \<open>'1w'\<close>, \<open>'1d'\<close>.\<close>

datatype counter = K_all | K_1m | K_1w | K_1d

text \<open>
  The values read from \<open>django.conf.settings\<close>. \<open>LOCALES\<close> maps a language to
  the \<open>iso639_1\<close> attribute of its entry (\<open>None\<close> or a string).

  Modelled from the spec: the settings module is not among the sources;
  \<open>CC_TOP_CONTRIB_SORT\<close> is "one of the four counters" and the other values have
  the types the code uses them at.
\<close>

record settings =
  STAGE :: bool
  CC_IGNORE_USERS :: "string list"
  CC_MAX_TWEETS :: int
  SUMO_LANGUAGES :: "string list"
  LOCALES :: "(string \<times> string option) list"
  CC_TOP_CONTRIB_SORT :: counter
  CC_TOP_CONTRIB_LIMIT :: int
  CC_TOP_CONTRIB_CACHE_KEY :: string

text \<open>
  \<open>_filter_tweet(item, allow_links)\<close>. \<open>Inl r\<close> is the path that increments the
  counter of \<open>r\<close> and returns \<open>None\<close>; \<open>Inr item\<close> is the accepted item, returned
  unchanged.
\<close>

definition filter_tweet :: "settings \<Rightarrow> item \<Rightarrow> bool \<Rightarrow> reason + item" where
  "filter_tweet cfg it allow_links =
     (let t = lower (item_text it)
      in if reply_to_other it then Inl reply_or_mention
         else if MENTION_REGEX (filtered_text t) then Inl reply_or_mention
         else if RT_REGEX t \<or> contains t ''(via '' then Inl retweet
         else if \<not> allow_links \<and> LINK_REGEX t then Inl link
         else if screen_name it \<in> set (CC_IGNORE_USERS cfg) then Inl user
         else Inr it)"

section \<open>Exceptions and the state the jobs act on\<close>

datatype error =
    IntegrityError
  | KeyError string
  | TypeError
  | ValueError
  | AssertionError
  | RedisError string

record tweet =
  tweet_id :: int
  raw_json :: item
  tweet_locale :: string
  created :: int

text \<open>
  The state outside the process: the rows of the Tweet table, the names passed to
  \<open>statsd.incr\<close> in call order, the messages passed to \<open>log.error\<close>, and the
  Redis key/value store.
\<close>

record world =
  tweets :: "tweet list"
  statsd :: "string list"
  log_error :: "string list"
  cache :: "(string \<times> string) list"

definition incr :: "string \<Rightarrow> world \<Rightarrow> world" where
  "incr name w = w\<lparr>statsd := statsd w @ [name]\<rparr>"

section \<open>The ingestion job\<close>

text \<open>
  Modelled from the spec: \<open>Tweet.save\<close> for a new row (\<open>kitsune.customercare.models\<close>
  is not among the sources). The store's insert "fails with DuplicateKey when id
  exists"; otherwise the row is added.
\<close>

definition save :: "tweet \<Rightarrow> tweet list \<Rightarrow> error + tweet list" where
  "save t rows =
     (if tweet_id t \<in> set (map tweet_id rows) then Inl IntegrityError else Inr (rows @ [t]))"

definition reason_name :: "reason \<Rightarrow> string" where
  "reason_name r =
     (case r of reply_or_mention \<Rightarrow> ''reply_or_mention'' | retweet \<Rightarrow> ''retweet''
      | link \<Rightarrow> ''link'' | user \<Rightarrow> ''user'')"

text \<open>
  The loop over \<open>results['statuses']\<close>. \<open>parsedate\<close> stands for
  \<open>rfc822.parsedate\<close> followed by the conversion to a UTC time; it is \<open>None\<close> on a
  string that does not parse, which makes \<open>calendar.timegm\<close> raise. The first
  component of the result is the exception that leaves the loop, if any.
\<close>

fun collect_loop ::
  "settings \<Rightarrow> (string \<Rightarrow> int option) \<Rightarrow> item list \<Rightarrow> world \<Rightarrow> error option \<times> world" where
  "collect_loop cfg parsedate [] w = (None, w)"
| "collect_loop cfg parsedate (it # its) w =
     (let w1 = incr ''customercare.tweet.collected'' w
      in case filter_tweet cfg it (contains (item_text it) ''#fxinput'') of
           Inl r \<Rightarrow>
             collect_loop cfg parsedate its
               (incr (''customercare.tweet.rejected.'' @ reason_name r) w1)
         | Inr it' \<Rightarrow>
             (case parsedate (created_at it') of
                None \<Rightarrow> (Some TypeError, w1)
              | Some created_date \<Rightarrow>
                  (case metadata it' of
                     None \<Rightarrow> (Some (KeyError ''metadata''), w1)
                   | Some md \<Rightarrow>
                       (let item_lang = (case md of None \<Rightarrow> ''en'' | Some l \<Rightarrow> l);
                            tw = \<lparr>tweet_id = item_id it', raw_json = it',
                                  tweet_locale = item_lang, created = created_date\<rparr>
                        in case save tw (tweets w1) of
                             Inr rows \<Rightarrow>
                               collect_loop cfg parsedate its
                                 (incr ''customercare.tweet.saved'' (w1\<lparr>tweets := rows\<rparr>))
                           | Inl IntegrityError \<Rightarrow> collect_loop cfg parsedate its w1
                           | Inl e \<Rightarrow> (Some e, w1)))))"

text \<open>
  \<open>collect_tweets()\<close>. The search client and its \<open>since_id\<close> cursor are the
  external collaborator; \<open>statuses\<close> is the \<open>results['statuses']\<close> it answers with.
\<close>

definition collect_tweets ::
  "settings \<Rightarrow> (string \<Rightarrow> int option) \<Rightarrow> item list \<Rightarrow> world \<Rightarrow> error option \<times> world" where
  "collect_tweets cfg parsedate statuses w =
     (if STAGE cfg then (None, w)
      else if length statuses = 0 then (None, w)
      else collect_loop cfg parsedate statuses w)"

section \<open>The retention job\<close>

text \<open>
  \<open>_get_oldest_tweet(locale, n)\<close>: index \<open>n\<close> of the locale's rows by descending
  creation time. Django refuses a negative index with an AssertionError, which the
  handler for IndexError does not catch. Rows with equal creation times come in an
  order the database chooses; the model takes one such order.
\<close>

definition get_oldest_tweet :: "string \<Rightarrow> int \<Rightarrow> tweet list \<Rightarrow> error + tweet option" where
  "get_oldest_tweet loc n rows =
     (let ordered = rev (sort_key created (filter (\<lambda>t. tweet_locale t = loc) rows))
      in if n < 0 then Inl AssertionError
         else if nat n < length ordered then Inr (Some (ordered ! nat n))
         else Inr None)"

text \<open>
  The loop of \<open>purge_tweets()\<close> over \<open>settings.SUMO_LANGUAGES\<close>, on the rows of the
  Tweet table. A language without an entry in \<open>LOCALES\<close> raises KeyError; a falsy
  code (\<open>None\<close> or the empty string) is skipped.
\<close>

fun purge_loop :: "settings \<Rightarrow> string list \<Rightarrow> tweet list \<Rightarrow> error option \<times> tweet list" where
  "purge_loop cfg [] rows = (None, rows)"
| "purge_loop cfg (lang # langs) rows =
     (case map_of (LOCALES cfg) lang of
        None \<Rightarrow> (Some (KeyError lang), rows)
      | Some None \<Rightarrow> purge_loop cfg langs rows
      | Some (Some loc) \<Rightarrow>
          if loc = [] then purge_loop cfg langs rows
          else (case get_oldest_tweet loc (CC_MAX_TWEETS cfg) rows of
                  Inl e \<Rightarrow> (Some e, rows)
                | Inr None \<Rightarrow> purge_loop cfg langs rows
                | Inr (Some oldest) \<Rightarrow>
                    purge_loop cfg langs
                      (filter (\<lambda>t. \<not> (tweet_locale t = loc \<and> created t \<le> created oldest)) rows)))"

definition purge_tweets :: "settings \<Rightarrow> tweet list \<Rightarrow> error option \<times> tweet list" where
  "purge_tweets cfg rows = purge_loop cfg (SUMO_LANGUAGES cfg) rows"

section \<open>The stats aggregator\<close>

datatype json =
    JNull
  | JBool bool
  | JNum int
  | JStr string
  | JArr "json list"
  | JObj "(string \<times> json) list"

text \<open>
  A row of the Reply table: \<open>reply.twitter_username\<close>, the value of
  \<open>json.loads(reply.raw_json)\<close> (\<open>None\<close> when the text is not JSON, which raises
  ValueError) and \<open>reply.created\<close>. A \<open>datetime\<close> is its count of microseconds.
\<close>

record reply =
  twitter_username :: string
  reply_raw_json :: "json option"
  reply_created :: int

text \<open>An entry of \<open>contributor_stats\<close>, with the keys \<open>'twitter_username'\<close>,
  \<open>'avatar'\<close>, \<open>'avatar_https'\<close>, \<open>'all'\<close>, \<open>'1m'\<close>, \<open>'1w'\<close> and \<open>'1d'\<close>.\<close>

record contributor =
  c_twitter_username :: string
  avatar :: json
  avatar_https :: json
  cnt_all :: int
  cnt_1m :: int
  cnt_1w :: int
  cnt_1d :: int

text \<open>\<open>d[key]\<close> on a decoded JSON value: KeyError on a dict without the key,
  TypeError on anything that is not a dict.\<close>

definition getitem :: "json \<Rightarrow> string \<Rightarrow> error + json" where
  "getitem d key =
     (case d of
        JObj kvs \<Rightarrow> (case map_of kvs key of None \<Rightarrow> Inl (KeyError key) | Some v \<Rightarrow> Inr v)
      | _ \<Rightarrow> Inl TypeError)"

text \<open>\<open>'from_user' in raw\<close>: a key test on a dict, a substring test on a string, a
  membership test on a list, TypeError otherwise.\<close>

definition has_from_user :: "json \<Rightarrow> error + bool" where
  "has_from_user raw =
     (case raw of
        JObj kvs \<Rightarrow> Inr (map_of kvs ''from_user'' \<noteq> None)
      | JStr s \<Rightarrow> Inr (contains s ''from_user'')
      | JArr xs \<Rightarrow> Inr (JStr ''from_user'' \<in> set xs)
      | _ \<Rightarrow> Inl TypeError)"

text \<open>The entry created at the first reply of a user.\<close>

definition new_contributor :: "string \<Rightarrow> json \<Rightarrow> error + contributor" where
  "new_contributor usr raw =
     (case has_from_user raw of
        Inl e \<Rightarrow> Inl e
      | Inr legacy \<Rightarrow>
          (case (if legacy then Inr raw else getitem raw ''user'') of
             Inl e \<Rightarrow> Inl e
           | Inr user_data \<Rightarrow>
               (case getitem user_data ''profile_image_url'' of
                  Inl e \<Rightarrow> Inl e
                | Inr a \<Rightarrow>
                    (case getitem user_data ''profile_image_url_https'' of
                       Inl e \<Rightarrow> Inl e
                     | Inr ah \<Rightarrow>
                         Inr \<lparr>c_twitter_username = usr, avatar = a, avatar_https = ah,
                              cnt_all = 0, cnt_1m = 0, cnt_1w = 0, cnt_1d = 0\<rparr>))))"

definition timedelta_days :: "int \<Rightarrow> int" where
  "timedelta_days d = d * 86400000000"

text \<open>The increments of one reply, nested as in the source.\<close>

definition count_reply :: "int \<Rightarrow> int \<Rightarrow> contributor \<Rightarrow> contributor" where
  "count_reply now cr c0 =
     (let one_month_ago = now - timedelta_days 30;
          one_week_ago = now - timedelta_days 7;
          yesterday = now - timedelta_days 1;
          c1 = c0\<lparr>cnt_all := cnt_all c0 + 1\<rparr>
      in if cr > one_month_ago
         then (let c2 = c1\<lparr>cnt_1m := cnt_1m c1 + 1\<rparr>
               in if cr > one_week_ago
                  then (let c3 = c2\<lparr>cnt_1w := cnt_1w c2 + 1\<rparr>
                        in if cr > yesterday then c3\<lparr>cnt_1d := cnt_1d c3 + 1\<rparr> else c3)
                  else c2)
         else c1)"

text \<open>
  The loop over \<open>Reply.objects.all()\<close>. \<open>contributor_stats\<close> is the dict, kept as
  an association list with one pair per key, in the order the keys were inserted.
\<close>

fun stats_loop ::
  "int \<Rightarrow> reply list \<Rightarrow> (string \<times> contributor) list \<Rightarrow> error + (string \<times> contributor) list" where
  "stats_loop now [] contributor_stats = Inr contributor_stats"
| "stats_loop now (r # rs) contributor_stats =
     (case reply_raw_json r of
        None \<Rightarrow> Inl ValueError
      | Some raw \<Rightarrow>
          (let usr = twitter_username r
           in case (if map_of contributor_stats usr = None
                    then (case new_contributor usr raw of
                            Inl e \<Rightarrow> Inl e
                          | Inr c \<Rightarrow> Inr (contributor_stats @ [(usr, c)]))
                    else Inr contributor_stats) of
                Inl e \<Rightarrow> Inl e
              | Inr stats1 \<Rightarrow>
                  stats_loop now rs
                    (map (\<lambda>(k, c). if k = usr then (k, count_reply now (reply_created r) c)
                                    else (k, c)) stats1)))"

definition counter_value :: "counter \<Rightarrow> contributor \<Rightarrow> int" where
  "counter_value k c =
     (case k of K_all \<Rightarrow> cnt_all c | K_1m \<Rightarrow> cnt_1m c | K_1w \<Rightarrow> cnt_1w c | K_1d \<Rightarrow> cnt_1d c)"

text \<open>The slice \<open>xs[:limit]\<close>; a negative limit counts from the end.\<close>

definition slice_to :: "int \<Rightarrow> 'a list \<Rightarrow> 'a list" where
  "slice_to limit xs =
     (if limit < 0 then take (nat (int (length xs) + limit)) xs else take (nat limit) xs)"

text \<open>
  \<open>sorted(values, key=lambda c: (c[sort_key], c['all']), reverse=True)[:limit]\<close>.
  Tuples compare lexicographically; the sort is stable, and with \<open>reverse=True\<close>
  entries with equal keys keep their original order.
\<close>

definition rank :: "settings \<Rightarrow> contributor list \<Rightarrow> contributor list" where
  "rank cfg vals =
     slice_to (CC_TOP_CONTRIB_LIMIT cfg)
       (rev (sort_key (\<lambda>c. (counter_value (CC_TOP_CONTRIB_SORT cfg) c, cnt_all c)) (rev vals)))"

text \<open>
  The \<open>try\<close> block that writes the cache. \<open>redis_failure\<close> is the exception that
  \<open>redis_client\<close> or \<open>redis.set\<close> raises, if any: a RedisError is handled, any other
  exception leaves the function.
\<close>

definition publish ::
  "settings \<Rightarrow> (contributor list \<Rightarrow> string) \<Rightarrow> error option \<Rightarrow> contributor list \<Rightarrow> world
     \<Rightarrow> (error + contributor list) \<times> world" where
  "publish cfg json_dumps redis_failure ranked w =
     (let key = CC_TOP_CONTRIB_CACHE_KEY cfg
      in case redis_failure of
           None \<Rightarrow>
             (Inr ranked,
              w\<lparr>cache := (key, json_dumps ranked) # filter (\<lambda>kv. fst kv \<noteq> key) (cache w)\<rparr>)
         | Some (RedisError e) \<Rightarrow>
             (Inr ranked,
              (incr ''redis.error'' w)\<lparr>log_error := log_error w @ [''Redis error: '' @ e]\<rparr>)
         | Some e \<Rightarrow> (Inl e, w))"

text \<open>
  \<open>get_customercare_stats()\<close>. \<open>dict_values\<close> is the order in which
  \<open>contributor_stats.values()\<close> lists the entries, which a Python 2 dict does not
  fix; \<open>json_dumps\<close> is the serialiser; \<open>now\<close> is \<open>datetime.now()\<close>.
\<close>

definition get_customercare_stats ::
  "settings \<Rightarrow> ((string \<times> contributor) list \<Rightarrow> contributor list) \<Rightarrow> (contributor list \<Rightarrow> string)
     \<Rightarrow> error option \<Rightarrow> int \<Rightarrow> reply list \<Rightarrow> world \<Rightarrow> (error + contributor list) \<times> world" where
  "get_customercare_stats cfg dict_values json_dumps redis_failure now replies w =
     (case stats_loop now replies [] of
        Inl e \<Rightarrow> (Inl e, w)
      | Inr contributor_stats \<Rightarrow>
          publish cfg json_dumps redis_failure (rank cfg (dict_values contributor_stats)) w)"

subsection \<open>The aggregation with every boundary tested on its own\<close>

text \<open>
  The implementation the specification compares with: each of the three
  boundaries is tested for every record, independently of the others.
\<close>

definition count_reply_independent :: "int \<Rightarrow> int \<Rightarrow> contributor \<Rightarrow> contributor" where
  "count_reply_independent now cr c0 =
     c0\<lparr>cnt_all := cnt_all c0 + 1,
        cnt_1m := (if cr > now - timedelta_days 30 then cnt_1m c0 + 1 else cnt_1m c0),
        cnt_1w := (if cr > now - timedelta_days 7 then cnt_1w c0 + 1 else cnt_1w c0),
        cnt_1d := (if cr > now - timedelta_days 1 then cnt_1d c0 + 1 else cnt_1d c0)\<rparr>"

fun stats_loop_independent ::
  "int \<Rightarrow> reply list \<Rightarrow> (string \<times> contributor) list \<Rightarrow> error + (string \<times> contributor) list" where
  "stats_loop_independent now [] contributor_stats = Inr contributor_stats"
| "stats_loop_independent now (r # rs) contributor_stats =
     (case reply_raw_json r of
        None \<Rightarrow> Inl ValueError
      | Some raw \<Rightarrow>
          (let usr = twitter_username r
           in case (if map_of contributor_stats usr = None
                    then (case new_contributor usr raw of
                            Inl e \<Rightarrow> Inl e
                          | Inr c \<Rightarrow> Inr (contributor_stats @ [(usr, c)]))
                    else Inr contributor_stats) of
                Inl e \<Rightarrow> Inl e
              | Inr stats1 \<Rightarrow>
                  stats_loop_independent now rs
                    (map (\<lambda>(k, c). if k = usr
                                    then (k, count_reply_independent now (reply_created r) c)
                                    else (k, c)) stats1)))"

definition get_customercare_stats_independent ::
  "settings \<Rightarrow> ((string \<times> contributor) list \<Rightarrow> contributor list) \<Rightarrow> (contributor list \<Rightarrow> string)
     \<Rightarrow> error option \<Rightarrow> int \<Rightarrow> reply list \<Rightarrow> world \<Rightarrow> (error + contributor list) \<times> world" where
  "get_customercare_stats_independent cfg dict_values json_dumps redis_failure now replies w =
     (case stats_loop_independent now replies [] of
        Inl e \<Rightarrow> (Inl e, w)
      | Inr contributor_stats \<Rightarrow>
          publish cfg json_dumps redis_failure (rank cfg (dict_values contributor_stats)) w)"

section \<open>Predicates of the properties and example inputs\<close>

definition example_settings :: settings where
  "example_settings =
     \<lparr>STAGE = False, CC_IGNORE_USERS = [''spammer''], CC_MAX_TWEETS = 2,
      SUMO_LANGUAGES = [''en-US'', ''xx'', ''de''],
      LOCALES = [(''en-US'', Some ''en''), (''xx'', None), (''de'', Some ''de'')],
      CC_TOP_CONTRIB_SORT = K_1w, CC_TOP_CONTRIB_LIMIT = 2,
      CC_TOP_CONTRIB_CACHE_KEY = ''top-contributors''\<rparr>"

definition candidate :: "int \<Rightarrow> string \<Rightarrow> string \<Rightarrow> item" where
  "candidate i txt author =
     \<lparr>item_id = i, item_text = txt, to_user_id = None, screen_name = author,
      created_at = ''Tue, 01 Jan 2013 00:00:00 +0000'', metadata = Some None\<rparr>"

text \<open>What the filter decides, without the item: the rejection reason, or \<open>None\<close>
  for an accepted candidate.\<close>

definition verdict :: "reason + item \<Rightarrow> reason option" where
  "verdict r = (case r of Inl x \<Rightarrow> Some x | Inr _ \<Rightarrow> None)"

text \<open>The nesting of the four counters of one contributor.\<close>

definition nested_counts :: "contributor \<Rightarrow> bool" where
  "nested_counts c = (cnt_1d c \<le> cnt_1w c \<and> cnt_1w c \<le> cnt_1m c \<and> cnt_1m c \<le> cnt_all c)"

definition empty_world :: world where
  "empty_world = \<lparr>tweets = [], statsd = [], log_error = [], cache = []\<rparr>"

definition example_payload :: json where
  "example_payload =
     JObj [(''text'', JStr ''try safe mode''),
           (''user'', JObj [(''profile_image_url'', JStr ''http://a.example/p.png''),
                            (''profile_image_url_https'', JStr ''https://a.example/p.png'')])]"

text \<open>A reply of \<open>usr\<close> created \<open>age\<close> microseconds before the time 8640000000000.\<close>

definition example_reply :: "string \<Rightarrow> int \<Rightarrow> reply" where
  "example_reply usr age =
     \<lparr>twitter_username = usr, reply_raw_json = Some example_payload,
      reply_created = 8640000000000 - age\<rparr>"

text \<open>Replies of A now, exactly 7 days ago and 40 days ago, and of B now and 2 days
  ago.\<close>

definition example_replies :: "reply list" where
  "example_replies =
     [example_reply ''A'' 0, example_reply ''A'' 604800000000, example_reply ''A'' 3456000000000,
      example_reply ''B'' 0, example_reply ''B'' 172800000000]"

definition example_dumps :: "contributor list \<Rightarrow> string" where
  "example_dumps cs = concat (map (\<lambda>c. c_twitter_username c @ '';'') cs)"

text \<open>A reply of a new user whose payload has no \<open>from_user\<close> key and whose nested
  \<open>user\<close> object lacks \<open>profile_image_url_https\<close>.\<close>

definition example_bad_reply :: reply where
  "example_bad_reply =
     \<lparr>twitter_username = ''C'',
      reply_raw_json =
        Some (JObj [(''text'', JStr ''restart it''),
                    (''user'', JObj [(''profile_image_url'', JStr ''http://c.example/p.png'')])]),
      reply_created = 8640000000000\<rparr>"

text \<open>The rows of a locale, in table order.\<close>

definition posts_of :: "string \<Rightarrow> tweet list \<Rightarrow> tweet list" where
  "posts_of loc rows = filter (\<lambda>t. tweet_locale t = loc) rows"

text \<open>How many rows of \<open>ps\<close> are strictly newer than \<open>t\<close>, and the rows of \<open>ps\<close>
  that have fewer than \<open>N\<close> newer rows: the \<open>N\<close> newest.\<close>

definition newer_count :: "tweet \<Rightarrow> tweet list \<Rightarrow> nat" where
  "newer_count t ps = length (filter (\<lambda>u. created t < created u) ps)"

definition newest :: "nat \<Rightarrow> tweet list \<Rightarrow> tweet list" where
  "newest N ps = filter (\<lambda>t. newer_count t ps < N) ps"

definition example_tweet :: "int \<Rightarrow> string \<Rightarrow> int \<Rightarrow> tweet" where
  "example_tweet i loc t =
     \<lparr>tweet_id = i, raw_json = candidate i ''firefox'' ''bob'', tweet_locale = loc, created = t\<rparr>"

definition example_rows :: "tweet list" where
  "example_rows =
     [example_tweet 1 ''en'' 30, example_tweet 2 ''de'' 10, example_tweet 3 ''en'' 10,
      example_tweet 4 ''en'' 40, example_tweet 5 ''en'' 20, example_tweet 6 ''fr'' 5]"

section \<open>Properties of the filter pipeline\<close>

text \<open>
  Counterexample to C1 as stated: the text \<open>RT @someone: check this out\<close> matches the
  retweet pattern and has no reply target, but the mention check runs before the
  retweet check, so the candidate is rejected with reason \<open>reply_or_mention\<close>, not
  \<open>retweet\<close>.
\<close>

theorem retweet_with_mention_counterexample:
  "RT_REGEX (lower ''RT @someone: check this out'')
   \<and> to_user_id (candidate 1 ''RT @someone: check this out'' ''bob'') = None
   \<and> filter_tweet example_settings (candidate 1 ''RT @someone: check this out'' ''bob'') False
       = Inl reply_or_mention"
  by code_simp

text \<open>
  C1 (amended): a candidate whose lowercased text matches \<open>^rt\W\<close> or contains
  \<open>(via \<close> is always rejected, whatever its links, its author and \<open>allow_links\<close>
  are: with reason \<open>retweet\<close> when neither the reply check nor the mention check
  matches, and with reason \<open>reply_or_mention\<close> when one of them does, since both
  run before the retweet check.
\<close>

theorem retweet_after_reply_and_mention:
  assumes "RT_REGEX (lower (item_text it)) \<or> contains (lower (item_text it)) ''(via ''"
  shows "filter_tweet cfg it allow_links =
     (if reply_to_other it \<or> MENTION_REGEX (filtered_text (lower (item_text it)))
      then Inl reply_or_mention else Inl retweet)"
  using assms by (simp add: filter_tweet_def Let_def)

theorem retweet_after_reply_and_mention_witness:
  "RT_REGEX (lower (item_text
       (candidate 1 ''RT: broken again http://example.org (via web)'' ''spammer'')))
   \<and> filter_tweet example_settings
        (candidate 1 ''RT: broken again http://example.org (via web)'' ''spammer'') False
       = Inl retweet
   \<and> contains (lower (item_text (candidate 2 ''so slow (via @someone)'' ''bob''))) ''(via ''
   \<and> filter_tweet example_settings (candidate 2 ''so slow (via @someone)'' ''bob'') True
       = Inl reply_or_mention"
proof -
  let ?a = "candidate 1 ''RT: broken again http://example.org (via web)'' ''spammer''"
  let ?b = "candidate 2 ''so slow (via @someone)'' ''bob''"
  have a1: "\<not> reply_to_other ?a" by code_simp
  have a2: "\<not> MENTION_REGEX (filtered_text (lower (item_text ?a)))" by code_simp
  have a3: "RT_REGEX (lower (item_text ?a))" by code_simp
  have b2: "MENTION_REGEX (filtered_text (lower (item_text ?b)))" by code_simp
  have b3: "contains (lower (item_text ?b)) ''(via ''" by code_simp
  from a3 have a3': "RT_REGEX (lower (item_text ?a)) \<or> contains (lower (item_text ?a)) ''(via ''"
    by simp
  from b3 have b3': "RT_REGEX (lower (item_text ?b)) \<or> contains (lower (item_text ?b)) ''(via ''"
    by simp
  have ra: "filter_tweet example_settings ?a False = Inl retweet"
    using retweet_after_reply_and_mention [OF a3', of example_settings False] a1 a2 by simp
  have rb: "filter_tweet example_settings ?b True = Inl reply_or_mention"
    using retweet_after_reply_and_mention [OF b3', of example_settings True] b2 by simp
  from a3 ra b3 rb show ?thesis by blast
qed

text \<open>
  Counterexample to C2 as stated: \<open>I love @firefoxrocks\<close> mentions an account that is
  not allow-listed and has no reply target, yet the literal \<open>@firefox\<close> is stripped
  before the mention test, \<open>rocks\<close> is left, and the candidate is accepted.
\<close>

theorem prefixed_mention_counterexample:
  "MENTION_REGEX (lower ''I love @firefoxrocks'')
   \<and> ''firefoxrocks'' \<notin> set (map (lower \<circ> username) ALLOWED_USERS)
   \<and> \<not> reply_to_other (candidate 1 ''I love @firefoxrocks'' ''bob'')
   \<and> filter_tweet example_settings (candidate 1 ''I love @firefoxrocks'' ''bob'') False
       = Inr (candidate 1 ''I love @firefoxrocks'' ''bob'')"
  by code_simp

text \<open>
  C2 (amended): a candidate that passes the reply check and whose lowercased text,
  once every literal \<open>@firefox\<close> and \<open>@firefoxbrasil\<close> is removed, still has an \<open>@\<close>
  at its start or after a non-word character, is rejected with reason
  \<open>reply_or_mention\<close>.
\<close>

theorem mention_left_after_stripping:
  assumes "\<not> reply_to_other it"
    and "MENTION_REGEX (filtered_text (lower (item_text it)))"
  shows "filter_tweet cfg it allow_links = Inl reply_or_mention"
  using assms by (simp add: filter_tweet_def Let_def)

theorem mention_left_after_stripping_witness:
  "\<not> reply_to_other (candidate 1 ''thanks @Someone and @Firefox'' ''bob'')
   \<and> MENTION_REGEX (filtered_text (lower (item_text
        (candidate 1 ''thanks @Someone and @Firefox'' ''bob''))))
   \<and> filter_tweet example_settings (candidate 1 ''thanks @Someone and @Firefox'' ''bob'') True
       = Inl reply_or_mention"
proof -
  let ?it = "candidate 1 ''thanks @Someone and @Firefox'' ''bob''"
  have a: "\<not> reply_to_other ?it" by code_simp
  have b: "MENTION_REGEX (filtered_text (lower (item_text ?it)))" by code_simp
  show ?thesis
    using a b mention_left_after_stripping [OF a b, of example_settings True] by simp
qed

text \<open>
  Counterexample to C9 as stated: the author \<open>Spammer\<close> differs from the ignore-list
  entry \<open>spammer\<close> only in letter case, and the candidate is accepted.
\<close>

theorem blocked_author_case_counterexample:
  "lower ''Spammer'' \<in> set (map lower (CC_IGNORE_USERS example_settings))
   \<and> filter_tweet example_settings (candidate 1 ''firefox is slow'' ''Spammer'') False
       = Inr (candidate 1 ''firefox is slow'' ''Spammer'')"
  by code_simp

text \<open>
  C9 (amended): the checks on the text are case-insensitive, that is, two
  candidates with the same reply target and author whose texts agree once
  lowercased get the same verdict; the blocked-author check compares the author's
  handle with the entries of the ignore list exactly, and rejects with reason
  \<open>user\<close> precisely when no earlier check rejects and the handle is an entry.
\<close>

theorem text_checks_fold_case_author_exact:
  assumes "lower (item_text a) = lower (item_text b)"
    and "to_user_id a = to_user_id b"
    and "screen_name a = screen_name b"
  shows "verdict (filter_tweet cfg a allow_links) = verdict (filter_tweet cfg b allow_links)
    \<and> (verdict (filter_tweet cfg a allow_links) = Some user \<longleftrightarrow>
         \<not> reply_to_other a
         \<and> \<not> MENTION_REGEX (filtered_text (lower (item_text a)))
         \<and> \<not> RT_REGEX (lower (item_text a))
         \<and> \<not> contains (lower (item_text a)) ''(via ''
         \<and> (allow_links \<or> \<not> LINK_REGEX (lower (item_text a)))
         \<and> screen_name a \<in> set (CC_IGNORE_USERS cfg))"
  using assms by (auto simp add: filter_tweet_def Let_def verdict_def reply_to_other_def)

theorem text_checks_fold_case_author_exact_witness:
  "lower (item_text (candidate 1 ''See HTTP://Example.org'' ''bob''))
     = lower (item_text (candidate 2 ''see http://example.ORG'' ''bob''))
   \<and> to_user_id (candidate 1 ''See HTTP://Example.org'' ''bob'')
     = to_user_id (candidate 2 ''see http://example.ORG'' ''bob'')
   \<and> screen_name (candidate 1 ''See HTTP://Example.org'' ''bob'')
     = screen_name (candidate 2 ''see http://example.ORG'' ''bob'')
   \<and> verdict (filter_tweet example_settings (candidate 1 ''See HTTP://Example.org'' ''bob'') False)
     = verdict (filter_tweet example_settings (candidate 2 ''see http://example.ORG'' ''bob'') False)
   \<and> verdict (filter_tweet example_settings (candidate 1 ''See HTTP://Example.org'' ''bob'') False)
     \<noteq> Some user"
proof -
  let ?a = "candidate 1 ''See HTTP://Example.org'' ''bob''"
  let ?b = "candidate 2 ''see http://example.ORG'' ''bob''"
  have h1: "lower (item_text ?a) = lower (item_text ?b)" by code_simp
  have h2: "to_user_id ?a = to_user_id ?b" by code_simp
  have h3: "screen_name ?a = screen_name ?b" by code_simp
  have h4: "screen_name ?a \<notin> set (CC_IGNORE_USERS example_settings)" by code_simp
  show ?thesis
    using text_checks_fold_case_author_exact [OF h1 h2 h3, of example_settings False] h1 h2 h3 h4
    by blast
qed

section \<open>Properties of the stats aggregator\<close>

lemma count_reply_independent_eq:
  "count_reply now cr c = count_reply_independent now cr c"
  by (simp add: count_reply_def count_reply_independent_def timedelta_days_def Let_def)

lemma stats_loop_independent_eq:
  "stats_loop now rs acc = stats_loop_independent now rs acc"
  by (induction rs arbitrary: acc)
     (simp_all add: count_reply_independent_eq Let_def split: option.splits sum.splits cong: if_cong)

text \<open>
  C4: for every list of Reply records, every current time and every
  configuration, the aggregation with the nested increments returns exactly what
  the aggregation that tests each boundary on its own returns: the same
  contributors with the same four counters, the same error if a payload is
  malformed, and the same effects.
\<close>

theorem nested_windows_refine_independent:
  "get_customercare_stats cfg dict_values json_dumps redis_failure now replies w
     = get_customercare_stats_independent cfg dict_values json_dumps redis_failure now replies w"
  by (simp add: get_customercare_stats_def get_customercare_stats_independent_def
      stats_loop_independent_eq)

theorem nested_windows_refine_independent_witness:
  "get_customercare_stats example_settings (map snd) example_dumps None 8640000000000
       example_replies empty_world
     = get_customercare_stats_independent example_settings (map snd) example_dumps None
         8640000000000 example_replies empty_world
   \<and> map (\<lambda>c. (cnt_all c, cnt_1m c, cnt_1w c, cnt_1d c))
        (projr (fst (get_customercare_stats_independent example_settings (map snd) example_dumps
           None 8640000000000 example_replies empty_world)))
     = [(2, 2, 2, 1), (3, 2, 1, 1)]"
proof -
  have "map (\<lambda>c. (cnt_all c, cnt_1m c, cnt_1w c, cnt_1d c))
        (projr (fst (get_customercare_stats_independent example_settings (map snd) example_dumps
           None 8640000000000 example_replies empty_world)))
     = [(2, 2, 2, 1), (3, 2, 1, 1)]"
    by code_simp
  then show ?thesis
    using nested_windows_refine_independent [of example_settings "map snd" example_dumps None
        8640000000000 example_replies empty_world]
    by simp
qed

lemma nested_counts_count_reply:
  "nested_counts c \<Longrightarrow> nested_counts (count_reply now cr c)"
  by (simp add: nested_counts_def count_reply_def timedelta_days_def Let_def)

lemma nested_counts_new_contributor:
  "new_contributor usr raw = Inr c \<Longrightarrow> nested_counts c"
  by (auto simp add: new_contributor_def nested_counts_def split: sum.splits if_splits)

lemma stats_loop_nested_counts:
  "stats_loop now rs acc = Inr out \<Longrightarrow> \<forall>c \<in> snd ` set acc. nested_counts c
     \<Longrightarrow> \<forall>c \<in> snd ` set out. nested_counts c"
proof (induction rs arbitrary: acc)
  case Nil
  then show ?case by simp
next
  case (Cons r rs)
  from Cons.prems(1) obtain raw where raw: "reply_raw_json r = Some raw"
    by (cases "reply_raw_json r") auto
  let ?usr = "twitter_username r"
  let ?bump = "\<lambda>(k, c). if k = ?usr then (k, count_reply now (reply_created r) c) else (k, c)"
  obtain stats1 where s1: "stats_loop now rs (map ?bump stats1) = Inr out"
    and inv1: "\<forall>c \<in> snd ` set stats1. nested_counts c"
  proof (cases "map_of acc ?usr = None")
    case True
    with Cons.prems(1) raw obtain c where c: "new_contributor ?usr raw = Inr c"
      and "stats_loop now rs (map ?bump (acc @ [(?usr, c)])) = Inr out"
      by (auto simp add: Let_def split: sum.splits)
    moreover have "\<forall>c \<in> snd ` set (acc @ [(?usr, c)]). nested_counts c"
      using Cons.prems(2) nested_counts_new_contributor [OF c] by auto
    ultimately show ?thesis using that by blast
  next
    case False
    with Cons.prems(1) raw have "stats_loop now rs (map ?bump acc) = Inr out"
      by (auto simp add: Let_def split: sum.splits)
    then show ?thesis using that Cons.prems(2) by blast
  qed
  have "\<forall>c \<in> snd ` set (map ?bump stats1). nested_counts c"
    using inv1 by (auto simp add: nested_counts_count_reply split: if_splits)
  from Cons.IH [OF s1 this] show ?case .
qed

lemma set_slice_to: "set (slice_to limit xs) \<subseteq> set xs"
  by (auto simp add: slice_to_def dest: in_set_takeD)

lemma set_rank: "set (rank cfg vals) \<subseteq> set vals"
  using set_slice_to [of "CC_TOP_CONTRIB_LIMIT cfg"] by (fastforce simp add: rank_def)

lemma publish_Inr: "fst (publish cfg jd rf ranked w) = Inr res \<Longrightarrow> res = ranked"
  by (auto simp add: publish_def Let_def split: option.splits error.splits)

lemma stats_result:
  assumes "fst (get_customercare_stats cfg dv jd rf now replies w) = Inr res"
  obtains contributor_stats where "stats_loop now replies [] = Inr contributor_stats"
    and "res = rank cfg (dv contributor_stats)"
  using assms
  by (auto simp add: get_customercare_stats_def split: sum.splits dest: publish_Inr)

text \<open>
  C5: every contributor in the list the aggregator returns has
  \<open>1d \<le> 1w \<le> 1m \<le> all\<close>. The order in which the dict lists its values is
  arbitrary; it is only assumed to list exactly the values.
\<close>

theorem counters_nested:
  assumes "\<And>d. mset (dict_values d) = mset (map snd d)"
    and "fst (get_customercare_stats cfg dict_values json_dumps redis_failure now replies w) = Inr res"
    and "c \<in> set res"
  shows "cnt_1d c \<le> cnt_1w c \<and> cnt_1w c \<le> cnt_1m c \<and> cnt_1m c \<le> cnt_all c"
proof -
  from assms(2) obtain cs where loop: "stats_loop now replies [] = Inr cs"
    and res: "res = rank cfg (dict_values cs)"
    by (rule stats_result)
  have "set (dict_values cs) = snd ` set cs"
    using assms(1) [of cs] by (metis mset_eq_setD set_map)
  with assms(3) res set_rank have "c \<in> snd ` set cs" by blast
  moreover have "\<forall>c \<in> snd ` set cs. nested_counts c"
    using stats_loop_nested_counts [OF loop] by simp
  ultimately have "nested_counts c" by blast
  then show ?thesis by (simp add: nested_counts_def)
qed

theorem counters_nested_witness:
  "(\<forall>d :: (string \<times> contributor) list. mset (map snd d) = mset (map snd d))
   \<and> \<not> isl (fst (get_customercare_stats example_settings (map snd) example_dumps None
          8640000000000 example_replies empty_world))
   \<and> length (projr (fst (get_customercare_stats example_settings (map snd) example_dumps None
          8640000000000 example_replies empty_world))) = 2
   \<and> list_all (\<lambda>c. cnt_1d c \<le> cnt_1w c \<and> cnt_1w c \<le> cnt_1m c \<and> cnt_1m c \<le> cnt_all c)
        (projr (fst (get_customercare_stats example_settings (map snd) example_dumps
          None 8640000000000 example_replies empty_world)))"
proof -
  let ?run = "get_customercare_stats example_settings (map snd) example_dumps None
          8640000000000 example_replies empty_world"
  have r: "fst ?run = Inr (projr (fst ?run))" by code_simp
  have n: "length (projr (fst ?run)) = 2" by code_simp
  have i: "\<not> isl (fst ?run)" by code_simp
  have p: "mset (map snd d) = mset (map snd d)" for d :: "(string \<times> contributor) list" by simp
  show ?thesis
    using counters_nested [of "map snd", OF p r] n i by (simp add: list_all_iff)
qed

lemma sorted_wrt_slice_to: "sorted_wrt P xs \<Longrightarrow> sorted_wrt P (slice_to limit xs)"
  by (simp add: slice_to_def sorted_wrt_take)

lemma length_slice_to: "0 \<le> limit \<Longrightarrow> int (length (slice_to limit xs)) \<le> limit"
  by (simp add: slice_to_def)

lemma sorted_wrt_rank:
  "sorted_wrt (\<lambda>a b. counter_value (CC_TOP_CONTRIB_SORT cfg) a > counter_value (CC_TOP_CONTRIB_SORT cfg) b
      \<or> (counter_value (CC_TOP_CONTRIB_SORT cfg) a = counter_value (CC_TOP_CONTRIB_SORT cfg) b
          \<and> cnt_all a \<ge> cnt_all b)) (rank cfg vals)"
proof -
  let ?f = "\<lambda>c. (counter_value (CC_TOP_CONTRIB_SORT cfg) c, cnt_all c)"
  have "sorted (map ?f (sort_key ?f (rev vals)))" by (rule sorted_sort_key)
  then have "sorted_wrt (\<lambda>x y. ?f x \<le> ?f y) (sort_key ?f (rev vals))"
    by (simp only: sorted_map)
  then have "sorted_wrt (\<lambda>x y. ?f y \<le> ?f x) (rev (sort_key ?f (rev vals)))"
    by (simp add: sorted_wrt_rev)
  then have "sorted_wrt (\<lambda>a b. counter_value (CC_TOP_CONTRIB_SORT cfg) a > counter_value (CC_TOP_CONTRIB_SORT cfg) b
      \<or> (counter_value (CC_TOP_CONTRIB_SORT cfg) a = counter_value (CC_TOP_CONTRIB_SORT cfg) b
          \<and> cnt_all a \<ge> cnt_all b)) (rev (sort_key ?f (rev vals)))"
    by (rule sorted_wrt_mono_rel [rotated]) (auto simp add: less_eq_prod_def)
  then show ?thesis unfolding rank_def by (rule sorted_wrt_slice_to)
qed

text \<open>
  C6: the returned list is in descending order of the configured counter, ties in
  descending order of \<open>all\<close>, and has at most \<open>CC_TOP_CONTRIB_LIMIT\<close> entries, for
  a limit that is not negative.
\<close>

theorem leaderboard_sorted_and_bounded:
  assumes "fst (get_customercare_stats cfg dict_values json_dumps redis_failure now replies w) = Inr res"
  shows "sorted_wrt (\<lambda>a b. counter_value (CC_TOP_CONTRIB_SORT cfg) a > counter_value (CC_TOP_CONTRIB_SORT cfg) b
      \<or> (counter_value (CC_TOP_CONTRIB_SORT cfg) a = counter_value (CC_TOP_CONTRIB_SORT cfg) b
          \<and> cnt_all a \<ge> cnt_all b)) res
    \<and> (0 \<le> CC_TOP_CONTRIB_LIMIT cfg \<longrightarrow> int (length res) \<le> CC_TOP_CONTRIB_LIMIT cfg)"
proof -
  from assms obtain cs where res: "res = rank cfg (dict_values cs)"
    by (rule stats_result)
  have "0 \<le> CC_TOP_CONTRIB_LIMIT cfg \<longrightarrow> int (length res) \<le> CC_TOP_CONTRIB_LIMIT cfg"
    unfolding res rank_def by (blast intro: length_slice_to)
  then show ?thesis unfolding res
    using sorted_wrt_rank [of cfg "dict_values cs"] by blast
qed

theorem leaderboard_sorted_and_bounded_witness:
  "0 \<le> CC_TOP_CONTRIB_LIMIT example_settings
   \<and> \<not> isl (fst (get_customercare_stats example_settings (map snd) example_dumps None
          8640000000000 example_replies empty_world))
   \<and> int (length (projr (fst (get_customercare_stats example_settings (map snd) example_dumps
          None 8640000000000 example_replies empty_world))))
       \<le> CC_TOP_CONTRIB_LIMIT example_settings
   \<and> sorted_wrt (\<lambda>a b. cnt_1w a > cnt_1w b \<or> (cnt_1w a = cnt_1w b \<and> cnt_all a \<ge> cnt_all b))
        (projr (fst (get_customercare_stats example_settings (map snd) example_dumps None
          8640000000000 example_replies empty_world)))"
proof -
  let ?run = "get_customercare_stats example_settings (map snd) example_dumps None
          8640000000000 example_replies empty_world"
  have r: "fst ?run = Inr (projr (fst ?run))" by code_simp
  have i: "\<not> isl (fst ?run)" by code_simp
  have l: "0 \<le> CC_TOP_CONTRIB_LIMIT example_settings" by code_simp
  have k: "CC_TOP_CONTRIB_SORT example_settings = K_1w" by code_simp
  show ?thesis
    using leaderboard_sorted_and_bounded [OF r] i l
    by (simp add: k counter_value_def)
qed

text \<open>
  C8: when the aggregation loop has succeeded and the cache write raises a
  RedisError, the run increments \<open>redis.error\<close>, logs the error, leaves the
  cache as it was, and returns the ranked, truncated list, which is also what it
  returns when the write succeeds.
\<close>

theorem cache_failure_still_returns:
  assumes "stats_loop now replies [] = Inr contributor_stats"
  shows "get_customercare_stats cfg dict_values json_dumps (Some (RedisError e)) now replies w
       = (Inr (rank cfg (dict_values contributor_stats)),
          w\<lparr>statsd := statsd w @ [''redis.error''],
            log_error := log_error w @ [''Redis error: '' @ e]\<rparr>)
     \<and> fst (get_customercare_stats cfg dict_values json_dumps (Some (RedisError e)) now replies w)
       = fst (get_customercare_stats cfg dict_values json_dumps None now replies w)"
  using assms by (simp add: get_customercare_stats_def publish_def incr_def Let_def)


theorem cache_failure_still_returns_witness:
  "stats_loop 8640000000000 example_replies []
     = Inr (projr (stats_loop 8640000000000 example_replies []))
   \<and> \<not> isl (fst (get_customercare_stats example_settings (map snd) example_dumps
          (Some (RedisError ''down'')) 8640000000000 example_replies empty_world))
   \<and> fst (get_customercare_stats example_settings (map snd) example_dumps
          (Some (RedisError ''down'')) 8640000000000 example_replies empty_world)
     = fst (get_customercare_stats example_settings (map snd) example_dumps
          None 8640000000000 example_replies empty_world)
   \<and> snd (get_customercare_stats example_settings (map snd) example_dumps
          (Some (RedisError ''down'')) 8640000000000 example_replies empty_world)
     = \<lparr>tweets = [], statsd = [''redis.error''], log_error = [''Redis error: down''],
        cache = []\<rparr>"
proof -
  have h: "stats_loop 8640000000000 example_replies []
     = Inr (projr (stats_loop 8640000000000 example_replies []))"
    by code_simp
  note t = cache_failure_still_returns [OF h, of example_settings "map snd" example_dumps
        "''down''" empty_world]
  from t have a: "fst (get_customercare_stats example_settings (map snd) example_dumps
          (Some (RedisError ''down'')) 8640000000000 example_replies empty_world)
     = fst (get_customercare_stats example_settings (map snd) example_dumps
          None 8640000000000 example_replies empty_world)"
    by (rule conjunct2)
  from t have b: "get_customercare_stats example_settings (map snd) example_dumps
          (Some (RedisError ''down'')) 8640000000000 example_replies empty_world
     = (Inr (rank example_settings (map snd (projr (stats_loop 8640000000000 example_replies [])))),
        empty_world\<lparr>statsd := statsd empty_world @ [''redis.error''],
          log_error := log_error empty_world @ [''Redis error: '' @ ''down'']\<rparr>)"
    by (rule conjunct1)
  have c: "\<not> isl (fst (get_customercare_stats example_settings (map snd) example_dumps
          (Some (RedisError ''down'')) 8640000000000 example_replies empty_world))"
    by (simp add: b)
  have d: "snd (get_customercare_stats example_settings (map snd) example_dumps
          (Some (RedisError ''down'')) 8640000000000 example_replies empty_world)
     = \<lparr>tweets = [], statsd = [''redis.error''], log_error = [''Redis error: down''],
        cache = []\<rparr>"
    unfolding b by (simp add: empty_world_def)
  from h c a d show ?thesis by blast
qed

lemma stats_loop_append:
  "stats_loop now (pre @ rest) acc =
     (case stats_loop now pre acc of Inl e \<Rightarrow> Inl e | Inr acc' \<Rightarrow> stats_loop now rest acc')"
  by (induction pre arbitrary: acc) (simp_all add: Let_def split: option.splits sum.splits)

lemma stats_loop_keys:
  "stats_loop now rs acc = Inr out \<Longrightarrow> fst ` set out = fst ` set acc \<union> twitter_username ` set rs"
proof (induction rs arbitrary: acc)
  case Nil
  then show ?case by simp
next
  case (Cons r rs)
  from Cons.prems obtain raw where raw: "reply_raw_json r = Some raw"
    by (cases "reply_raw_json r") auto
  let ?usr = "twitter_username r"
  let ?bump = "\<lambda>(k, c). if k = ?usr then (k, count_reply now (reply_created r) c) else (k, c)"
  have keys: "fst ` set (map ?bump xs) = fst ` set xs" for xs
    by (induction xs) (auto split: if_splits)
  show ?case
  proof (cases "map_of acc ?usr = None")
    case True
    with Cons.prems raw obtain c where
      "stats_loop now rs (map ?bump (acc @ [(?usr, c)])) = Inr out"
      by (auto simp add: Let_def split: sum.splits)
    from Cons.IH [OF this] show ?thesis unfolding keys by auto
  next
    case False
    then have "?usr \<in> fst ` set acc" by (simp add: map_of_eq_None_iff)
    moreover from False Cons.prems raw have "stats_loop now rs (map ?bump acc) = Inr out"
      by (auto simp add: Let_def split: sum.splits)
    from Cons.IH [OF this] have "fst ` set out = fst ` set acc \<union> twitter_username ` set rs"
      unfolding keys .
    ultimately show ?thesis by auto
  qed
qed

lemma new_contributor_fails:
  assumes "map_of kvs ''from_user'' = None"
    and "\<not> (\<exists>ukvs a ah. map_of kvs ''user'' = Some (JObj ukvs)
            \<and> map_of ukvs ''profile_image_url'' = Some a
            \<and> map_of ukvs ''profile_image_url_https'' = Some ah)"
  shows "\<exists>e. new_contributor usr (JObj kvs) = Inl e"
proof (cases "map_of kvs ''user''")
  case None
  with assms(1) show ?thesis
    by (simp add: new_contributor_def has_from_user_def getitem_def)
next
  case (Some u)
  show ?thesis
  proof (cases u)
    case (JObj ukvs)
    with Some assms show ?thesis
      by (cases "map_of ukvs ''profile_image_url''"; cases "map_of ukvs ''profile_image_url_https''")
         (simp_all add: new_contributor_def has_from_user_def getitem_def)
  qed (use Some assms(1) in \<open>simp_all add: new_contributor_def has_from_user_def getitem_def\<close>)
qed

text \<open>
  C10: if the records before \<open>r\<close> aggregate without error, \<open>r\<close> is the first reply
  of its user, and the payload of \<open>r\<close> has neither a \<open>from_user\<close> key nor a nested
  \<open>user\<close> object with both profile image fields, then the run ends with an error
  and changes nothing, whatever records follow: the list is not returned and the
  cache is not written.
\<close>

theorem bad_payload_aborts_run:
  assumes "stats_loop now pre [] = Inr acc"
    and "twitter_username r \<notin> twitter_username ` set pre"
    and "reply_raw_json r = Some (JObj kvs)"
    and "map_of kvs ''from_user'' = None"
    and "\<not> (\<exists>ukvs a ah. map_of kvs ''user'' = Some (JObj ukvs)
            \<and> map_of ukvs ''profile_image_url'' = Some a
            \<and> map_of ukvs ''profile_image_url_https'' = Some ah)"
  shows "\<exists>e. get_customercare_stats cfg dict_values json_dumps redis_failure now (pre @ r # post) w
            = (Inl e, w)"
proof -
  from stats_loop_keys [OF assms(1)] assms(2)
  have "twitter_username r \<notin> fst ` set acc" by simp
  then have fresh: "map_of acc (twitter_username r) = None"
    by (simp add: map_of_eq_None_iff)
  from new_contributor_fails [OF assms(4,5)] obtain e where
    e: "new_contributor (twitter_username r) (JObj kvs) = Inl e" by blast
  have "stats_loop now (pre @ r # post) [] = Inl e"
    using assms(1,3) fresh e by (simp add: stats_loop_append Let_def)
  then show ?thesis by (simp add: get_customercare_stats_def)
qed


theorem bad_payload_aborts_run_witness:
  "stats_loop 8640000000000 [example_reply ''A'' 0] []
     = Inr (projr (stats_loop 8640000000000 [example_reply ''A'' 0] []))
   \<and> twitter_username example_bad_reply \<notin> twitter_username ` set [example_reply ''A'' 0]
   \<and> (\<exists>e. get_customercare_stats example_settings (map snd) example_dumps None 8640000000000
          ([example_reply ''A'' 0] @ example_bad_reply # [example_reply ''B'' 0]) empty_world
        = (Inl e, empty_world))"
proof -
  let ?kvs = "[(''text'', JStr ''restart it''),
               (''user'', JObj [(''profile_image_url'', JStr ''http://c.example/p.png'')])]"
  have h1: "stats_loop 8640000000000 [example_reply ''A'' 0] []
     = Inr (projr (stats_loop 8640000000000 [example_reply ''A'' 0] []))"
    by code_simp
  have h2: "twitter_username example_bad_reply \<notin> twitter_username ` set [example_reply ''A'' 0]"
    by (simp add: example_bad_reply_def example_reply_def)
  have h3: "reply_raw_json example_bad_reply = Some (JObj ?kvs)"
    by (simp add: example_bad_reply_def)
  have h4: "map_of ?kvs ''from_user'' = None" by simp
  have h5: "\<not> (\<exists>ukvs a ah. map_of ?kvs ''user'' = Some (JObj ukvs)
            \<and> map_of ukvs ''profile_image_url'' = Some a
            \<and> map_of ukvs ''profile_image_url_https'' = Some ah)"
    by auto
  show ?thesis
    using bad_payload_aborts_run [OF h1 h2 h3 h4 h5, of example_settings "map snd" example_dumps
        None "[example_reply ''B'' 0]" empty_world] h1 h2
    by blast
qed

section \<open>Properties of the ingestion job\<close>

lemma filter_tweet_Inr: "filter_tweet cfg it al = Inr it' \<Longrightarrow> it' = it"
  by (simp add: filter_tweet_def Let_def split: if_splits)

lemma tweets_incr [simp]: "tweets (incr name w) = tweets w"
  by (simp add: incr_def)

lemma save_cases:
  "save tw rows = (if tweet_id tw \<in> tweet_id ` set rows then Inl IntegrityError else Inr (rows @ [tw]))"
  by (simp add: save_def)

lemma collect_loop_step:
  assumes "collect_loop cfg pd (it # its) w = (err, w')"
  obtains (abort) e where "err = Some e" "e \<noteq> IntegrityError" "tweets w' = tweets w"
  | (skip) w1 where "collect_loop cfg pd its w1 = (err, w')" "tweets w1 = tweets w"
      "isl (filter_tweet cfg it (contains (item_text it) ''#fxinput''))
         \<or> item_id it \<in> tweet_id ` set (tweets w)"
  | (saved) w1 tw where "collect_loop cfg pd its w1 = (err, w')" "tweets w1 = tweets w @ [tw]"
      "tweet_id tw = item_id it" "item_id it \<notin> tweet_id ` set (tweets w)"
proof (cases "filter_tweet cfg it (contains (item_text it) ''#fxinput'')")
  case (Inl r)
  with assms show ?thesis
    by (intro skip [where ?w1.0 = "incr (''customercare.tweet.rejected.'' @ reason_name r)
          (incr ''customercare.tweet.collected'' w)"]) (simp_all add: Let_def)
next
  case (Inr it')
  then have it': "it' = it" by (rule filter_tweet_Inr)
  show ?thesis
  proof (cases "pd (created_at it)")
    case None
    with assms Inr it' show ?thesis by (intro abort) (auto simp add: Let_def)
  next
    case (Some created_date)
    note pd = this
    show ?thesis
    proof (cases "metadata it")
      case None
      with assms Inr it' pd show ?thesis by (intro abort) (auto simp add: Let_def)
    next
      case (Some md)
      let ?tw = "\<lparr>tweet_id = item_id it, raw_json = it,
                 tweet_locale = (case md of None \<Rightarrow> ''en'' | Some l \<Rightarrow> l), created = created_date\<rparr>"
      show ?thesis
      proof (cases "item_id it \<in> tweet_id ` set (tweets w)")
        case True
        with assms Inr it' pd Some show ?thesis
          by (intro skip [where ?w1.0 = "incr ''customercare.tweet.collected'' w"])
             (simp_all add: Let_def save_cases)
      next
        case False
        with assms Inr it' pd Some show ?thesis
          by (intro saved [where tw = ?tw and ?w1.0 = "incr ''customercare.tweet.saved''
                ((incr ''customercare.tweet.collected'' w)\<lparr>tweets := tweets w @ [?tw]\<rparr>)"])
             (simp_all add: Let_def save_cases)
      qed
    qed
  qed
qed

lemma collect_loop_invariant:
  assumes "collect_loop cfg pd its w = (err, w')"
    and "distinct (map tweet_id (tweets w))"
  shows "distinct (map tweet_id (tweets w'))
    \<and> tweet_id ` set (tweets w) \<subseteq> tweet_id ` set (tweets w')
    \<and> err \<noteq> Some IntegrityError
    \<and> (err = None \<longrightarrow> (\<forall>it \<in> set its.
          \<not> isl (filter_tweet cfg it (contains (item_text it) ''#fxinput''))
          \<longrightarrow> item_id it \<in> tweet_id ` set (tweets w')))"
  using assms
proof (induction its arbitrary: w)
  case Nil
  then show ?case by simp
next
  case (Cons it its)
  from Cons.prems(1) show ?case
  proof (cases rule: collect_loop_step)
    case (abort e)
    with Cons.prems(2) show ?thesis by simp
  next
    case (skip w1)
    from Cons.IH [OF skip(1)] skip(2) Cons.prems(2)
    have ih: "distinct (map tweet_id (tweets w'))"
      "tweet_id ` set (tweets w) \<subseteq> tweet_id ` set (tweets w')"
      "err \<noteq> Some IntegrityError"
      "err = None \<longrightarrow> (\<forall>it \<in> set its.
          \<not> isl (filter_tweet cfg it (contains (item_text it) ''#fxinput''))
          \<longrightarrow> item_id it \<in> tweet_id ` set (tweets w'))"
      by simp_all
    from skip(3) ih(2)
    have "\<not> isl (filter_tweet cfg it (contains (item_text it) ''#fxinput''))
          \<longrightarrow> item_id it \<in> tweet_id ` set (tweets w')" by blast
    with ih show ?thesis by simp
  next
    case (saved w1 tw)
    have "distinct (map tweet_id (tweets w1))"
      using saved(2,3,4) Cons.prems(2) by simp
    from Cons.IH [OF saved(1) this] saved(2)
    have ih: "distinct (map tweet_id (tweets w'))"
      "tweet_id ` set (tweets w @ [tw]) \<subseteq> tweet_id ` set (tweets w')"
      "err \<noteq> Some IntegrityError"
      "err = None \<longrightarrow> (\<forall>it \<in> set its.
          \<not> isl (filter_tweet cfg it (contains (item_text it) ''#fxinput''))
          \<longrightarrow> item_id it \<in> tweet_id ` set (tweets w'))"
      by simp_all
    from ih(2) saved(3) have "item_id it \<in> tweet_id ` set (tweets w')" by auto
    moreover from ih(2) have "tweet_id ` set (tweets w) \<subseteq> tweet_id ` set (tweets w')" by auto
    ultimately show ?thesis using ih by simp
  qed
qed

lemma distinct_count_one:
  "distinct (map f xs) \<Longrightarrow> a \<in> f ` set xs \<Longrightarrow> length (filter (\<lambda>t. f t = a) xs) = 1"
proof (induction xs)
  case Nil
  then show ?case by simp
next
  case (Cons x xs)
  show ?case
  proof (cases "f x = a")
    case True
    from Cons.prems(1) have "f x \<notin> f ` set xs" by simp
    with True have "\<forall>t \<in> set xs. f t \<noteq> a" by (fastforce simp add: image_iff)
    then have "filter (\<lambda>t. f t = a) xs = []" by (simp add: filter_empty_conv)
    with True show ?thesis by simp
  next
    case False
    with Cons show ?thesis by auto
  qed
qed

lemma collect_loop_duplicate:
  assumes "filter_tweet cfg it (contains (item_text it) ''#fxinput'') = Inr it"
    and "parsedate (created_at it) = Some created_date"
    and "metadata it = Some md"
    and "item_id it \<in> tweet_id ` set (tweets w)"
  shows "collect_loop cfg parsedate (it # its) w
           = collect_loop cfg parsedate its (incr ''customercare.tweet.collected'' w)"
  using assms by (simp add: Let_def save_cases)

text \<open>
  C7: in a run of the ingestion job (outside staging, on a table whose ids are
  unique) no IntegrityError leaves the job and the ids stay unique; when the run
  completes, every accepted candidate of the page has exactly one stored row with
  its id, however often the id occurs in the page or was stored before; and an
  accepted candidate whose id is already stored is skipped: the loop goes on with
  the next candidate, with the table as it was and only the \<open>collected\<close> counter
  incremented.
\<close>

theorem duplicate_insert_discarded:
  assumes "distinct (map tweet_id (tweets w))"
    and "\<not> STAGE cfg"
    and "collect_tweets cfg parsedate statuses w = (err, w')"
  shows "err \<noteq> Some IntegrityError
    \<and> distinct (map tweet_id (tweets w'))
    \<and> (err = None \<longrightarrow> (\<forall>it \<in> set statuses.
          \<not> isl (filter_tweet cfg it (contains (item_text it) ''#fxinput''))
          \<longrightarrow> length (filter (\<lambda>t. tweet_id t = item_id it) (tweets w')) = 1))
    \<and> (\<forall>it its v. \<not> isl (filter_tweet cfg it (contains (item_text it) ''#fxinput''))
          \<and> parsedate (created_at it) \<noteq> None \<and> metadata it \<noteq> None
          \<and> item_id it \<in> tweet_id ` set (tweets v)
          \<longrightarrow> collect_loop cfg parsedate (it # its) v
                = collect_loop cfg parsedate its (incr ''customercare.tweet.collected'' v))"
proof -
  have run: "collect_loop cfg parsedate statuses w = (err, w')"
    using assms(2,3) by (cases statuses) (simp_all add: collect_tweets_def)
  note inv = collect_loop_invariant [OF run assms(1)]
  have dup: "collect_loop cfg parsedate (it # its) v
                = collect_loop cfg parsedate its (incr ''customercare.tweet.collected'' v)"
    if "\<not> isl (filter_tweet cfg it (contains (item_text it) ''#fxinput''))"
      and "parsedate (created_at it) \<noteq> None" and "metadata it \<noteq> None"
      and "item_id it \<in> tweet_id ` set (tweets v)" for it its v
  proof -
    from that(1) obtain it' where "filter_tweet cfg it (contains (item_text it) ''#fxinput'') = Inr it'"
      by (cases "filter_tweet cfg it (contains (item_text it) ''#fxinput'')") auto
    with filter_tweet_Inr have a: "filter_tweet cfg it (contains (item_text it) ''#fxinput'') = Inr it"
      by metis
    from that(2,3) obtain cd md where "parsedate (created_at it) = Some cd" "metadata it = Some md"
      by auto
    with a that(4) show ?thesis by (intro collect_loop_duplicate)
  qed
  have once: "length (filter (\<lambda>t. tweet_id t = item_id it) (tweets w')) = 1"
    if "err = None" "it \<in> set statuses"
      "\<not> isl (filter_tweet cfg it (contains (item_text it) ''#fxinput''))" for it
  proof -
    from inv that have m: "item_id it \<in> tweet_id ` set (tweets w')" by blast
    from inv have d: "distinct (map tweet_id (tweets w'))" by blast
    show ?thesis by (rule distinct_count_one [OF d m])
  qed
  have a: "err \<noteq> Some IntegrityError" and b: "distinct (map tweet_id (tweets w'))"
    using inv by blast+
  have c: "err = None \<longrightarrow> (\<forall>it \<in> set statuses.
          \<not> isl (filter_tweet cfg it (contains (item_text it) ''#fxinput''))
          \<longrightarrow> length (filter (\<lambda>t. tweet_id t = item_id it) (tweets w')) = 1)"
    using once by simp
  have d: "\<forall>it its v. \<not> isl (filter_tweet cfg it (contains (item_text it) ''#fxinput''))
          \<and> parsedate (created_at it) \<noteq> None \<and> metadata it \<noteq> None
          \<and> item_id it \<in> tweet_id ` set (tweets v)
          \<longrightarrow> collect_loop cfg parsedate (it # its) v
                = collect_loop cfg parsedate its (incr ''customercare.tweet.collected'' v)"
    using dup by simp
  from a b c d show ?thesis by (intro conjI)
qed


theorem duplicate_insert_discarded_witness:
  "distinct (map tweet_id (tweets empty_world))
   \<and> \<not> STAGE example_settings
   \<and> fst (collect_tweets example_settings (\<lambda>_. Some 1356998400000000)
        [candidate 7 ''firefox keeps crashing'' ''bob'',
         candidate 7 ''firefox keeps crashing'' ''bob''] empty_world) = None
   \<and> length (filter (\<lambda>t. tweet_id t = 7)
        (tweets (snd (collect_tweets example_settings (\<lambda>_. Some 1356998400000000)
           [candidate 7 ''firefox keeps crashing'' ''bob'',
            candidate 7 ''firefox keeps crashing'' ''bob''] empty_world)))) = 1
   \<and> statsd (snd (collect_tweets example_settings (\<lambda>_. Some 1356998400000000)
        [candidate 7 ''firefox keeps crashing'' ''bob'',
         candidate 7 ''firefox keeps crashing'' ''bob''] empty_world))
       = [''customercare.tweet.collected'', ''customercare.tweet.saved'',
          ''customercare.tweet.collected'']"
proof -
  let ?c = "candidate 7 ''firefox keeps crashing'' ''bob''"
  let ?run = "collect_tweets example_settings (\<lambda>_. Some 1356998400000000) [?c, ?c] empty_world"
  have h1: "distinct (map tweet_id (tweets empty_world))" by (simp add: empty_world_def)
  have h2: "\<not> STAGE example_settings" by (simp add: example_settings_def)
  have h3: "?run = (fst ?run, snd ?run)" by simp
  have e: "fst ?run = None" by code_simp
  have acc: "\<not> isl (filter_tweet example_settings ?c (contains (item_text ?c) ''#fxinput''))"
    by code_simp
  have i: "item_id ?c = 7" by (simp add: candidate_def)
  have s: "statsd (snd ?run) = [''customercare.tweet.collected'', ''customercare.tweet.saved'',
          ''customercare.tweet.collected'']"
    by code_simp
  from duplicate_insert_discarded [OF h1 h2 h3] e
  have "\<forall>it \<in> set [?c, ?c].
          \<not> isl (filter_tweet example_settings it (contains (item_text it) ''#fxinput''))
          \<longrightarrow> length (filter (\<lambda>t. tweet_id t = item_id it) (tweets (snd ?run))) = 1"
    by blast
  with acc i have "length (filter (\<lambda>t. tweet_id t = 7) (tweets (snd ?run))) = 1" by simp
  with h1 h2 e s show ?thesis by blast
qed

section \<open>Properties of the retention job\<close>

lemma descending_sort:
  assumes "distinct (map created ps)"
  shows "sorted_wrt (\<lambda>a b. created b < created a) (rev (sort_key created ps))"
proof -
  have "distinct (map created (sort_key created ps))"
    using assms by (simp add: distinct_map)
  moreover have "sorted (map created (sort_key created ps))" by (rule sorted_sort_key)
  ultimately have "sorted_wrt (<) (map created (sort_key created ps))"
    by (simp add: strict_sorted_iff)
  then have "sorted_wrt (\<lambda>a b. created a < created b) (sort_key created ps)"
    by (simp add: sorted_wrt_map)
  then show ?thesis by (simp add: sorted_wrt_rev)
qed

lemma filter_newer_take:
  fixes f :: "'a \<Rightarrow> int"
  assumes "sorted_wrt (\<lambda>a b. f b < f a) xs" and "j < length xs"
  shows "filter (\<lambda>u. f (xs ! j) < f u) xs = take j xs"
  using assms
proof (induction xs arbitrary: j)
  case Nil
  then show ?case by simp
next
  case (Cons x xs)
  from Cons.prems(1) have below: "\<forall>y \<in> set xs. f y < f x" and tl: "sorted_wrt (\<lambda>a b. f b < f a) xs"
    by simp_all
  show ?case
  proof (cases j)
    case 0
    from below have "filter (\<lambda>u. f x < f u) xs = []"
      by (auto simp add: filter_empty_conv)
    with 0 show ?thesis by simp
  next
    case (Suc k)
    with Cons.prems(2) have k: "k < length xs" by simp
    then have "xs ! k \<in> set xs" by simp
    with below have "f (xs ! k) < f x" by blast
    with Suc Cons.IH [OF tl k] show ?thesis by simp
  qed
qed

lemma length_filter_perm:
  "mset xs = mset ys \<Longrightarrow> length (filter P xs) = length (filter P ys)"
  by (metis mset_filter size_mset)

lemma filter_take_nth:
  "(\<And>j. j < length xs \<Longrightarrow> P (xs ! j) \<longleftrightarrow> j < N) \<Longrightarrow> filter P xs = take N xs"
proof (induction xs arbitrary: N)
  case Nil
  then show ?case by simp
next
  case (Cons x xs)
  show ?case
  proof (cases N)
    case 0
    with Cons.prems have "\<forall>y \<in> set (x # xs). \<not> P y"
      by (metis in_set_conv_nth not_less_zero)
    then have "filter P (x # xs) = []" by (simp add: filter_empty_conv)
    with 0 show ?thesis by simp
  next
    case (Suc n)
    with Cons.prems [of 0] have "P x" by simp
    moreover have "filter P xs = take n xs"
    proof (rule Cons.IH)
      fix j assume "j < length xs"
      with Cons.prems [of "Suc j"] Suc show "P (xs ! j) \<longleftrightarrow> j < n" by simp
    qed
    ultimately show ?thesis using Suc by simp
  qed
qed

lemma newer_count_ordered:
  assumes d: "distinct (map created ps)" and j: "j < length ps"
  shows "newer_count (rev (sort_key created ps) ! j) ps = j"
proof -
  let ?o = "rev (sort_key created ps)"
  have m: "mset ?o = mset ps" by simp
  have "newer_count (?o ! j) ps = length (filter (\<lambda>u. created (?o ! j) < created u) ?o)"
    unfolding newer_count_def by (rule length_filter_perm [OF m [symmetric]])
  also have "\<dots> = length (take j ?o)"
    using filter_newer_take [OF descending_sort [OF d], of j] j by simp
  also have "\<dots> = j" using j by simp
  finally show ?thesis .
qed

lemma created_le_cutoff:
  assumes d: "distinct (map created ps)" and N: "N < length ps" and t: "t \<in> set ps"
  shows "created t \<le> created (rev (sort_key created ps) ! N) \<longleftrightarrow> \<not> newer_count t ps < N"
proof -
  let ?o = "rev (sort_key created ps)"
  from t have "t \<in> set ?o" by simp
  then obtain j where j: "j < length ?o" and tj: "?o ! j = t"
    unfolding in_set_conv_nth by blast
  from j have j': "j < length ps" by simp
  have c: "newer_count t ps = j" using newer_count_ordered [OF d j'] tj by simp
  have s: "sorted_wrt (\<lambda>a b. created b < created a) ?o" by (rule descending_sort [OF d])
  have N': "N < length ?o" using N by simp
  show ?thesis
  proof (cases "j < N")
    case True
    from sorted_wrt_nth_less [OF s True N'] have "created (?o ! N) < created (?o ! j)" .
    with True c tj show ?thesis by simp
  next
    case False
    then consider "j = N" | "N < j" by linarith
    then have "created (?o ! j) \<le> created (?o ! N)"
    proof cases
      case 1
      then show ?thesis by simp
    next
      case 2
      from sorted_wrt_nth_less [OF s 2 j] show ?thesis by simp
    qed
    with False c tj show ?thesis by simp
  qed
qed

lemma length_newest:
  assumes d: "distinct (map created ps)"
  shows "length (newest N ps) = min N (length ps)"
proof -
  let ?o = "rev (sort_key created ps)"
  let ?P = "\<lambda>t. newer_count t ps < N"
  have m: "mset ps = mset ?o" by simp
  have "length (newest N ps) = length (filter ?P ?o)"
    unfolding newest_def by (rule length_filter_perm [OF m])
  also have "filter ?P ?o = take N ?o"
  proof (rule filter_take_nth)
    fix j assume "j < length ?o"
    then have "j < length ps" by simp
    from newer_count_ordered [OF d this] show "?P (?o ! j) \<longleftrightarrow> j < N" by simp
  qed
  finally show ?thesis by (simp add: min.commute)
qed

lemma newest_all:
  assumes "length ps \<le> N"
  shows "newest N ps = ps"
proof -
  have "newer_count t ps < N" if "t \<in> set ps" for t
  proof -
    have "\<not> created t < created t" by simp
    with that have "length (filter (\<lambda>u. created t < created u) ps) < length ps"
      by (intro length_filter_less)
    with assms show ?thesis by (simp add: newer_count_def)
  qed
  then show ?thesis by (simp add: newest_def)
qed

lemma newest_idem:
  assumes "distinct (map created ps)"
  shows "newest N (newest N ps) = newest N ps"
  by (rule newest_all) (simp add: length_newest [OF assms])

lemma distinct_newest:
  "distinct (map created ps) \<Longrightarrow> distinct (map created (newest N ps))"
  by (simp add: newest_def distinct_map_filter)

lemma posts_of_delete_same:
  "posts_of loc (filter (\<lambda>t. \<not> (tweet_locale t = loc \<and> created t \<le> c)) rows)
     = filter (\<lambda>t. \<not> created t \<le> c) (posts_of loc rows)"
  by (induction rows) (simp_all add: posts_of_def)

lemma posts_of_delete_other:
  "loc' \<noteq> loc \<Longrightarrow>
   posts_of loc' (filter (\<lambda>t. \<not> (tweet_locale t = loc \<and> created t \<le> c)) rows) = posts_of loc' rows"
  by (induction rows) (simp_all add: posts_of_def)

lemma get_oldest_tweet_nat:
  "get_oldest_tweet loc (int N) rows =
     Inr (if N < length (posts_of loc rows)
          then Some (rev (sort_key created (posts_of loc rows)) ! N) else None)"
  by (simp add: get_oldest_tweet_def posts_of_def Let_def)

lemma delete_up_to_cutoff:
  assumes d: "distinct (map created (posts_of loc rows))"
    and N: "N < length (posts_of loc rows)"
  shows "posts_of loc (filter (\<lambda>t. \<not> (tweet_locale t = loc
            \<and> created t \<le> created (rev (sort_key created (posts_of loc rows)) ! N))) rows)
         = newest N (posts_of loc rows)"
  unfolding posts_of_delete_same newest_def
  by (rule filter_cong [OF refl]) (simp add: created_le_cutoff [OF d N])

lemma purge_loop_posts:
  assumes "purge_loop cfg langs rows = (None, rows')"
    and "distinct (map created (posts_of loc rows))"
    and "CC_MAX_TWEETS cfg = int N"
    and "loc \<noteq> []"
  shows "posts_of loc rows' =
     (if \<exists>lang \<in> set langs. map_of (LOCALES cfg) lang = Some (Some loc)
      then newest N (posts_of loc rows) else posts_of loc rows)"
  using assms(1,2)
proof (induction langs arbitrary: rows)
  case Nil
  then show ?case by simp
next
  case (Cons lang langs)
  note d = Cons.prems(2)
  show ?case
  proof (cases "map_of (LOCALES cfg) lang")
    case None
    with Cons.prems(1) show ?thesis by simp
  next
    case (Some code)
    show ?thesis
    proof (cases code)
      case None
      with Some Cons.prems(1) have "purge_loop cfg langs rows = (None, rows')" by simp
      from Cons.IH [OF this d] Some None show ?thesis by simp
    next
      case (Some c)
      note code = \<open>map_of (LOCALES cfg) lang = Some code\<close> Some
      show ?thesis
      proof (cases "c = []")
        case True
        with code Cons.prems(1) have "purge_loop cfg langs rows = (None, rows')" by simp
        from Cons.IH [OF this d] code True assms(4) show ?thesis by auto
      next
        case False
        let ?ps = "posts_of c rows"
        let ?cut = "created (rev (sort_key created ?ps) ! N)"
        let ?rows1 = "filter (\<lambda>t. \<not> (tweet_locale t = c \<and> created t \<le> ?cut)) rows"
        show ?thesis
        proof (cases "N < length ?ps")
          case short: False
          with code False Cons.prems(1) assms(3)
          have run: "purge_loop cfg langs rows = (None, rows')"
            by (simp add: get_oldest_tweet_nat)
          show ?thesis
          proof (cases "c = loc")
            case True
            with short have "newest N (posts_of loc rows) = posts_of loc rows"
              by (intro newest_all) simp
            with Cons.IH [OF run d] code True show ?thesis by simp
          next
            case False
            with Cons.IH [OF run d] code show ?thesis by simp
          qed
        next
          case long: True
          with code False Cons.prems(1) assms(3)
          have run: "purge_loop cfg langs ?rows1 = (None, rows')"
            by (simp add: get_oldest_tweet_nat)
          show ?thesis
          proof (cases "c = loc")
            case True
            have p1: "posts_of loc ?rows1 = newest N (posts_of loc rows)"
              using delete_up_to_cutoff [OF d] long True by simp
            have d1: "distinct (map created (posts_of loc ?rows1))"
              unfolding p1 by (rule distinct_newest [OF d])
            from Cons.IH [OF run d1] code True show ?thesis
              unfolding p1 by (simp add: newest_idem [OF d])
          next
            case False
            then have p1: "posts_of loc ?rows1 = posts_of loc rows"
              by (intro posts_of_delete_other) simp
            have d1: "distinct (map created (posts_of loc ?rows1))"
              unfolding p1 by (rule d)
            from Cons.IH [OF run d1] code False show ?thesis
              unfolding p1 by simp
          qed
        qed
      qed
    qed
  qed
qed

text \<open>
  C3: let a run of the retention job complete, and let \<open>loc\<close> be the non-empty
  language code that \<open>LOCALES\<close> gives for one of the configured languages, with
  pairwise distinct creation times among its rows and a limit of \<open>N\<close>. If the
  locale has more than \<open>N\<close> rows, exactly \<open>N\<close> of them remain after the run, namely
  those with fewer than \<open>N\<close> newer rows (the \<open>N\<close> newest); if it has at most \<open>N\<close>
  rows, all of them remain.
\<close>

theorem purge_keeps_newest:
  assumes "purge_tweets cfg rows = (None, rows')"
    and "lang \<in> set (SUMO_LANGUAGES cfg)"
    and "map_of (LOCALES cfg) lang = Some (Some loc)"
    and "loc \<noteq> []"
    and "distinct (map created (posts_of loc rows))"
    and "CC_MAX_TWEETS cfg = int N"
  shows "(N < length (posts_of loc rows) \<longrightarrow>
           length (posts_of loc rows') = N
           \<and> posts_of loc rows'
               = filter (\<lambda>t. newer_count t (posts_of loc rows) < N) (posts_of loc rows))
       \<and> (length (posts_of loc rows) \<le> N \<longrightarrow> posts_of loc rows' = posts_of loc rows)"
proof -
  from assms(1) have "purge_loop cfg (SUMO_LANGUAGES cfg) rows = (None, rows')"
    by (simp add: purge_tweets_def)
  from purge_loop_posts [OF this assms(5,6,4)] assms(2,3)
  have p: "posts_of loc rows' = newest N (posts_of loc rows)" by auto
  have "length (posts_of loc rows') = N" if "N < length (posts_of loc rows)"
    using that by (simp add: p length_newest [OF assms(5)])
  moreover have "posts_of loc rows' = posts_of loc rows" if "length (posts_of loc rows) \<le> N"
    using that by (simp add: p newest_all)
  ultimately show ?thesis using p by (simp add: newest_def)
qed

theorem purge_keeps_newest_witness:
  "fst (purge_tweets example_settings example_rows) = None
   \<and> ''en-US'' \<in> set (SUMO_LANGUAGES example_settings)
   \<and> map_of (LOCALES example_settings) ''en-US'' = Some (Some ''en'')
   \<and> distinct (map created (posts_of ''en'' example_rows))
   \<and> CC_MAX_TWEETS example_settings = int 2
   \<and> 2 < length (posts_of ''en'' example_rows)
   \<and> length (posts_of ''en'' (snd (purge_tweets example_settings example_rows))) = 2
   \<and> map tweet_id (posts_of ''en'' (snd (purge_tweets example_settings example_rows))) = [1, 4]
   \<and> length (posts_of ''de'' example_rows) \<le> 2
   \<and> posts_of ''de'' (snd (purge_tweets example_settings example_rows))
       = posts_of ''de'' example_rows"
proof -
  let ?run = "purge_tweets example_settings example_rows"
  have e: "fst ?run = None" by code_simp
  then have h1: "?run = (None, snd ?run)" by (metis prod.collapse)
  have h2: "''en-US'' \<in> set (SUMO_LANGUAGES example_settings)" by code_simp
  have h3: "map_of (LOCALES example_settings) ''en-US'' = Some (Some ''en'')" by code_simp
  have h4: "''en'' \<noteq> []" by simp
  have h5: "distinct (map created (posts_of ''en'' example_rows))" by code_simp
  have h6: "CC_MAX_TWEETS example_settings = int 2" by (simp add: example_settings_def)
  have l: "2 < length (posts_of ''en'' example_rows)" by code_simp
  have ids: "map tweet_id (posts_of ''en'' (snd ?run)) = [1, 4]" by code_simp
  have g2: "''de'' \<in> set (SUMO_LANGUAGES example_settings)" by code_simp
  have g3: "map_of (LOCALES example_settings) ''de'' = Some (Some ''de'')" by code_simp
  have g4: "''de'' \<noteq> []" by simp
  have g5: "distinct (map created (posts_of ''de'' example_rows))" by code_simp
  have s: "length (posts_of ''de'' example_rows) \<le> 2" by code_simp
  from purge_keeps_newest [OF h1 h2 h3 h4 h5 h6] l
  have a: "length (posts_of ''en'' (snd ?run)) = 2" by blast
  from purge_keeps_newest [OF h1 g2 g3 g4 g5 h6] s
  have b: "posts_of ''de'' (snd ?run) = posts_of ''de'' example_rows" by blast
  from e h2 h3 h5 h6 l a ids s b show ?thesis by blast
qed

end
